theory Spec2Isabelle
  imports Main "HOL-Library.Multiset" "HOL-Library.AList" "HOL-Library.Char_ord"
    "HOL-Library.List_Lexorder"
begin

section \<open>Values shared by the proxies\<close>

text \<open>
  Exceptions that the modelled code raises, catches or lets through. The classes of
  \<^verbatim>\<open>requests.exceptions\<close> are kept apart, since \<^verbatim>\<open>NodeSoapProxy\<close>
  catches them by class.
\<close>

datatype requests_exception =
  RequestException | HTTPError | ConnectionError | ProxyError | SSLError
  | Timeout | ConnectTimeout | ReadTimeout | TooManyRedirects | InvalidURL

datatype exn =
  Requests requests_exception
  | TornadoHTTPError int string "string option"
  | SocketError string
  | NameError
  | StopIteration
  | ValueError
  | AttributeError
  | TypeError
  | IndexError
  | KeyError
  | Base64Error
  | OtherError string

text \<open>
  The payload half of a call result \<^verbatim>\<open>(status, response)\<close>: \<^verbatim>\<open>None\<close>, a string, or
  a reply object with an \<^verbatim>\<open>item\<close> attribute holding Base64 strings (what
  \<^verbatim>\<open>commandPoll\<close> answers).
\<close>

datatype payload = PNone | PStr string | PItems "string list"

type_synonym call_result = "int \<times> payload"

section \<open>Base64 (\<^verbatim>\<open>base64.b64encode\<close>, \<^verbatim>\<open>base64.b64decode\<close>)\<close>

text \<open>
  Byte strings are \<^typ>\<open>string\<close>: an Isabelle \<^typ>\<open>char\<close> is one byte. The encoder is
  \<^verbatim>\<open>binascii.b2a_base64\<close> without the trailing newline, the decoder is
  \<^verbatim>\<open>binascii.a2b_base64\<close> in its default, non-validating mode: characters outside the
  alphabet are skipped, padding ends the input, and left-over bits are an error.
\<close>

definition table_b2a_base64 :: string where
  "table_b2a_base64 =
     ''ABCDEFGHIJKLMNOPQRSTUVWXYZabcdefghijklmnopqrstuvwxyz0123456789+/''"

definition b2a :: "nat \<Rightarrow> char" where
  "b2a i = table_b2a_base64 ! i"

fun b64encode :: "string \<Rightarrow> string" where
  "b64encode (a # b # c # rest) =
     (let x = of_char a :: nat; y = of_char b :: nat; z = of_char c :: nat in
      [b2a (x div 4), b2a ((x mod 4) * 16 + y div 16),
       b2a ((y mod 16) * 4 + z div 64), b2a (z mod 64)]) @ b64encode rest"
| "b64encode [a, b] =
     (let x = of_char a :: nat; y = of_char b :: nat in
      [b2a (x div 4), b2a ((x mod 4) * 16 + y div 16), b2a ((y mod 16) * 4), CHR ''=''])"
| "b64encode [a] =
     (let x = of_char a :: nat in
      [b2a (x div 4), b2a ((x mod 4) * 16), CHR ''='', CHR ''=''])"
| "b64encode [] = []"

definition table_a2b_base64 :: "char \<Rightarrow> nat option" where
  "table_a2b_base64 c =
     (let n = of_char c :: nat in
      if 65 \<le> n \<and> n \<le> 90 then Some (n - 65)
      else if 97 \<le> n \<and> n \<le> 122 then Some (n - 71)
      else if 48 \<le> n \<and> n \<le> 57 then Some (n + 4)
      else if n = 43 then Some 62
      else if n = 47 then Some 63
      else None)"

text \<open>\<^verbatim>\<open>binascii_find_valid\<close>: the \<open>(num+1)\<close>-th character that is in the alphabet or is the pad.\<close>

fun find_valid :: "string \<Rightarrow> nat \<Rightarrow> char option" where
  "find_valid [] num = None"
| "find_valid (c # s) num =
     (if (of_char c :: nat) \<le> 127 \<and> (c = CHR ''='' \<or> table_a2b_base64 c \<noteq> None)
      then (if num = 0 then Some c else find_valid s (num - 1))
      else find_valid s num)"

text \<open>
  The decoding loop, with the C variables \<^verbatim>\<open>quad_pos\<close>, \<^verbatim>\<open>leftchar\<close>, \<^verbatim>\<open>leftbits\<close>
  and the output written so far. It returns the final \<^verbatim>\<open>leftbits\<close> and the output.
\<close>

fun a2b_loop :: "string \<Rightarrow> nat \<Rightarrow> nat \<Rightarrow> nat \<Rightarrow> string \<Rightarrow> nat \<times> string" where
  "a2b_loop [] quad_pos leftchar leftbits out = (leftbits, out)"
| "a2b_loop (c # s) quad_pos leftchar leftbits out =
     (if (of_char c :: nat) > 127 \<or> c = CHR 0x0D \<or> c = CHR 0x0A \<or> c = CHR '' ''
      then a2b_loop s quad_pos leftchar leftbits out
      else if c = CHR ''=''
      then (if quad_pos < 2 \<or> (quad_pos = 2 \<and> find_valid (c # s) 1 \<noteq> Some (CHR ''=''))
            then a2b_loop s quad_pos leftchar leftbits out
            else (0, out))
      else (case table_a2b_base64 c of
              None \<Rightarrow> a2b_loop s quad_pos leftchar leftbits out
            | Some v \<Rightarrow>
                (let quad_pos' = (quad_pos + 1) mod 4;
                     leftchar' = leftchar * 64 + v;
                     leftbits' = leftbits + 6
                 in if leftbits' \<ge> 8
                    then a2b_loop s quad_pos' (leftchar' mod 2 ^ (leftbits' - 8)) (leftbits' - 8)
                           (out @ [char_of (leftchar' div 2 ^ (leftbits' - 8) mod 256)])
                    else a2b_loop s quad_pos' leftchar' leftbits' out)))"

definition b64decode :: "string \<Rightarrow> exn + string" where
  "b64decode s =
     (case a2b_loop s 0 0 0 [] of
        (leftbits, out) \<Rightarrow> if leftbits \<noteq> 0 then Inl Base64Error else Inr out)"

section \<open>\<^verbatim>\<open>CommandProxy\<close>: a command running on a remote node\<close>

text \<open>
  The remote side is a world \<open>'w\<close> and a function that answers one call of
  \<^verbatim>\<open>self.node.service\<close>: it returns a call result or raises, and moves the world on.
\<close>

datatype rpc =
  CommandPoll string
  | CommandPush string string
  | CommandSignal string int
  | CommandStop string

type_synonym 'w service = "'w \<Rightarrow> rpc \<Rightarrow> (exn + call_result) \<times> 'w"

record command_proxy =
  cid :: string
  "done" :: bool

text \<open>\<^verbatim>\<open>[b64decode(item) for item in res.item]\<close>: the first item that fails raises.\<close>

fun b64decode_items :: "string list \<Rightarrow> exn + string list" where
  "b64decode_items [] = Inr []"
| "b64decode_items (item # items) =
     (case b64decode item of
        Inl e \<Rightarrow> Inl e
      | Inr d \<Rightarrow> (case b64decode_items items of Inl e \<Rightarrow> Inl e | Inr ds \<Rightarrow> Inr (d # ds)))"

text \<open>\<^verbatim>\<open>''.join(...) if hasattr(res, 'item') else res\<close>\<close>

definition read_payload :: "payload \<Rightarrow> exn + payload" where
  "read_payload res =
     (case res of
        PItems items \<Rightarrow>
          (case b64decode_items items of Inl e \<Rightarrow> Inl e | Inr ds \<Rightarrow> Inr (PStr (concat ds)))
      | _ \<Rightarrow> Inr res)"

definition CommandProxy_read ::
  "'w service \<Rightarrow> 'w \<Rightarrow> command_proxy \<Rightarrow> (exn + call_result) \<times> 'w \<times> command_proxy" where
  "CommandProxy_read service w self =
     (case service w (CommandPoll (cid self)) of
        (Inl e, w') \<Rightarrow> (Inl e, w', self)
      | (Inr (code, res), w') \<Rightarrow>
          (let self' = (if code \<noteq> 200 then self\<lparr>done := True\<rparr> else self) in
           (case read_payload res of
              Inl e \<Rightarrow> (Inl e, w', self')
            | Inr data \<Rightarrow> (Inr (code, data), w', self'))))"

definition CommandProxy_write ::
  "'w service \<Rightarrow> 'w \<Rightarrow> command_proxy \<Rightarrow> string \<Rightarrow> (exn + call_result) \<times> 'w \<times> command_proxy" where
  "CommandProxy_write service w self data =
     (case service w (CommandPush (cid self) (b64encode data)) of
        (Inl e, w') \<Rightarrow> (Inl e, w', self)
      | (Inr (code, res), w') \<Rightarrow>
          (Inr (code, res), w', if code \<noteq> 200 then self\<lparr>done := True\<rparr> else self))"

text \<open>
  \<^verbatim>\<open>int(sigid)\<close> on a string: surrounding whitespace is dropped, one sign is allowed, and
  the rest must be decimal digits, at least one; anything else is a \<^verbatim>\<open>ValueError\<close>
  (\<open>None\<close> here).
\<close>

definition is_space :: "char \<Rightarrow> bool" where
  "is_space c = (c \<in> set [CHR '' '', CHR 0x09, CHR 0x0A, CHR 0x0B, CHR 0x0C, CHR 0x0D])"

definition is_digit :: "char \<Rightarrow> bool" where
  "is_digit c = (48 \<le> (of_char c :: nat) \<and> (of_char c :: nat) \<le> 57)"

definition strip :: "string \<Rightarrow> string" where
  "strip s = rev (dropWhile is_space (rev (dropWhile is_space s)))"

definition digits_value :: "string \<Rightarrow> nat" where
  "digits_value ds = foldl (\<lambda>acc c. acc * 10 + (of_char c - 48)) 0 ds"

definition int_of_str :: "string \<Rightarrow> int option" where
  "int_of_str s =
     (case strip s of
        [] \<Rightarrow> None
      | c # r \<Rightarrow>
          (let ds = (if c = CHR ''-'' \<or> c = CHR ''+'' then r else c # r) in
           if ds \<noteq> [] \<and> list_all is_digit ds
           then Some (if c = CHR ''-'' then - int (digits_value ds) else int (digits_value ds))
           else None))"

definition upper_char :: "char \<Rightarrow> char" where
  "upper_char c =
     (if 97 \<le> (of_char c :: nat) \<and> (of_char c :: nat) \<le> 122
      then char_of ((of_char c :: nat) - 32) else c)"

definition upper :: "string \<Rightarrow> string" where
  "upper s = map upper_char s"

datatype sigarg = SigInt int | SigStr string

text \<open>
  The \<^verbatim>\<open>signal\<close> module is a table from attribute names to integers, a parameter of the
  model: \<^verbatim>\<open>getattr\<close> on a name that the table lacks raises \<^verbatim>\<open>AttributeError\<close>.
\<close>

definition CommandProxy_signal ::
  "(string \<rightharpoonup> int) \<Rightarrow> 'w service \<Rightarrow> 'w \<Rightarrow> command_proxy \<Rightarrow> sigarg
     \<Rightarrow> (exn + call_result) \<times> 'w \<times> command_proxy" where
  "CommandProxy_signal signal_module service w self sigid =
     (case (case sigid of
              SigInt n \<Rightarrow> Inr n
            | SigStr s \<Rightarrow>
                (case int_of_str s of
                   Some n \<Rightarrow> Inr n
                 | None \<Rightarrow>
                     (case signal_module (upper s) of
                        None \<Rightarrow> Inl AttributeError
                      | Some n \<Rightarrow> Inr n))) of
        Inl e \<Rightarrow> (Inl e, w, self)
      | Inr sig \<Rightarrow>
          (case service w (CommandSignal (cid self) sig) of
             (Inl e, w') \<Rightarrow> (Inl e, w', self)
           | (Inr (code, res), w') \<Rightarrow>
               (Inr (code, res), w', if code \<noteq> 200 then self\<lparr>done := True\<rparr> else self)))"

definition CommandProxy_stop ::
  "'w service \<Rightarrow> 'w \<Rightarrow> command_proxy \<Rightarrow> (exn + call_result) \<times> 'w \<times> command_proxy" where
  "CommandProxy_stop service w self =
     (let self' = self\<lparr>done := True\<rparr> in
      case service w (CommandStop (cid self')) of (r, w') \<Rightarrow> (r, w', self'))"

text \<open>
  \<^verbatim>\<open>next\<close>: the body of its \<^verbatim>\<open>while True\<close> leaves on the first pass, by \<^verbatim>\<open>return\<close> or by
  \<^verbatim>\<open>raise StopIteration()\<close>, so the loop is a single read.
\<close>

definition CommandProxy_next ::
  "'w service \<Rightarrow> 'w \<Rightarrow> command_proxy \<Rightarrow> (exn + payload) \<times> 'w \<times> command_proxy" where
  "CommandProxy_next service w self =
     (case CommandProxy_read service w self of
        (Inl e, w', self') \<Rightarrow> (Inl e, w', self')
      | (Inr (code, data), w', self') \<Rightarrow>
          if code = 200 then (Inr data, w', self')
          else (Inl StopIteration, w', self'\<lparr>done := True\<rparr>))"

text \<open>
  Iterating the proxy (\<^verbatim>\<open>for chunk in cmd\<close>, \<^verbatim>\<open>''.join(self)\<close>): \<^verbatim>\<open>next\<close> is called until
  it raises. \<^verbatim>\<open>StopIteration\<close> ends the traversal with the chunks collected, any other
  exception leaves it. A remote that answers 200 for ever keeps the loop running: the
  result is then \<open>None\<close>.
\<close>

partial_function (option) CommandProxy_iter ::
  "'w service \<Rightarrow> 'w \<Rightarrow> command_proxy \<Rightarrow> payload list
     \<Rightarrow> ((exn + payload list) \<times> 'w \<times> command_proxy) option" where
  "CommandProxy_iter service w self acc =
     (case CommandProxy_next service w self of
        (Inl e, w', self') \<Rightarrow>
          if e = StopIteration then Some (Inr acc, w', self') else Some (Inl e, w', self')
      | (Inr data, w', self') \<Rightarrow> CommandProxy_iter service w' self' (acc @ [data]))"

text \<open>\<^verbatim>\<open>''.join(chunks)\<close>: every chunk has to be a string.\<close>

fun join_chunks :: "payload list \<Rightarrow> exn + string" where
  "join_chunks [] = Inr []"
| "join_chunks (PStr s # ps) =
     (case join_chunks ps of Inl e \<Rightarrow> Inl e | Inr t \<Rightarrow> Inr (s @ t))"
| "join_chunks (_ # ps) = Inl TypeError"

definition CommandProxy_all ::
  "'w service \<Rightarrow> 'w \<Rightarrow> command_proxy \<Rightarrow> ((exn + string) \<times> 'w \<times> command_proxy) option" where
  "CommandProxy_all service w self =
     (case CommandProxy_iter service w self [] of
        None \<Rightarrow> None
      | Some (Inl e, w', self') \<Rightarrow> Some (Inl e, w', self')
      | Some (Inr chunks, w', self') \<Rightarrow> Some (join_chunks chunks, w', self'))"

text \<open>The operations a caller can issue on a session, and a session driven by a list of them.\<close>

datatype command_op = Read | Write string | Signal sigarg | Stop | Next

definition run_op ::
  "(string \<rightharpoonup> int) \<Rightarrow> 'w service \<Rightarrow> 'w \<times> command_proxy \<Rightarrow> command_op
     \<Rightarrow> 'w \<times> command_proxy" where
  "run_op signal_module service st op =
     (case st of (w, self) \<Rightarrow>
        (case op of
           Read \<Rightarrow> snd (CommandProxy_read service w self)
         | Write data \<Rightarrow> snd (CommandProxy_write service w self data)
         | Signal sigid \<Rightarrow> snd (CommandProxy_signal signal_module service w self sigid)
         | Stop \<Rightarrow> snd (CommandProxy_stop service w self)
         | Next \<Rightarrow> snd (CommandProxy_next service w self)))"

definition run_ops ::
  "(string \<rightharpoonup> int) \<Rightarrow> 'w service \<Rightarrow> 'w \<times> command_proxy \<Rightarrow> command_op list
     \<Rightarrow> 'w \<times> command_proxy" where
  "run_ops signal_module service st ops = foldl (run_op signal_module service) st ops"

text \<open>
  A scripted remote for concrete runs: the world is the list of answers still to come,
  each call takes the first one, and a remote with nothing left to say refuses the
  connection (status 0).
\<close>

definition scripted :: "(exn + call_result) list service" where
  "scripted w req = (case w of [] \<Rightarrow> (Inr (0, PNone), []) | r # rs \<Rightarrow> (r, rs))"

text \<open>A remote that answers 200 to everything and keeps the requests it received.\<close>

definition recording :: "rpc list service" where
  "recording w req = (Inr (200, PNone), w @ [req])"

text \<open>
  The remote as a session that only polls sees it: the world after \<open>n\<close> polls, and the
  answer that the poll number \<open>n\<close> (counting from 0) gets.
\<close>

fun world_after_polls :: "'w service \<Rightarrow> string \<Rightarrow> 'w \<Rightarrow> nat \<Rightarrow> 'w" where
  "world_after_polls service c w 0 = w"
| "world_after_polls service c w (Suc n) =
     world_after_polls service c (snd (service w (CommandPoll c))) n"

definition poll_at :: "'w service \<Rightarrow> string \<Rightarrow> 'w \<Rightarrow> nat \<Rightarrow> exn + call_result" where
  "poll_at service c w n = fst (service (world_after_polls service c w n) (CommandPoll c))"

text \<open>The \<^verbatim>\<open>signal\<close> module of a Linux host, for concrete runs.\<close>

definition signal_module_linux :: "string \<rightharpoonup> int" where
  "signal_module_linux = map_of
     [(''SIGHUP'', 1), (''SIGINT'', 2), (''SIGQUIT'', 3), (''SIGILL'', 4), (''SIGTRAP'', 5),
      (''SIGABRT'', 6), (''SIGBUS'', 7), (''SIGFPE'', 8), (''SIGKILL'', 9), (''SIGUSR1'', 10),
      (''SIGSEGV'', 11), (''SIGUSR2'', 12), (''SIGPIPE'', 13), (''SIGALRM'', 14),
      (''SIGTERM'', 15), (''SIGCHLD'', 17), (''SIGCONT'', 18), (''SIGSTOP'', 19),
      (''SIGTSTP'', 20), (''SIGTTIN'', 21), (''SIGTTOU'', 22), (''SIG_DFL'', 0),
      (''SIG_IGN'', 1), (''NSIG'', 65)]"

definition has_digit :: "string \<Rightarrow> bool" where
  "has_digit s = list_ex is_digit s"

section \<open>\<^verbatim>\<open>async_dispatch\<close>: jobs in a thread pool\<close>

text \<open>
  A job is the tuple \<^verbatim>\<open>(callable, args, kwargs)\<close>, whose last two members may be left
  out. A callable is modelled by what calling it gives: a value, or the exception it
  raises. The empty tuple has no \<^verbatim>\<open>v[0]\<close>.
\<close>

type_synonym ('a, 'r) callable = "'a list \<Rightarrow> (string \<times> 'a) list \<Rightarrow> exn + 'r"

datatype ('a, 'r) task =
  Task0
  | Task1 "('a, 'r) callable"
  | Task2 "('a, 'r) callable" "'a list"
  | Task3 "('a, 'r) callable" "'a list" "(string \<times> 'a) list"

text \<open>\<^verbatim>\<open>v[0](*(v[1] if len(v) >= 2 else []), **(v[2] if len(v) >= 3 else {}))\<close>\<close>

fun run_task :: "('a, 'r) task \<Rightarrow> exn + 'r" where
  "run_task Task0 = Inl IndexError"
| "run_task (Task1 f) = f [] []"
| "run_task (Task2 f args) = f args []"
| "run_task (Task3 f args kwargs) = f args kwargs"

text \<open>
  A future is the outcome of its job, with the number of the submission as its identity:
  two futures are never the same key of the \<^verbatim>\<open>futures\<close> dictionary. Building the
  arguments of \<^verbatim>\<open>executor.submit\<close> for the empty tuple raises \<^verbatim>\<open>IndexError\<close> at once.
\<close>

type_synonym 'r future = "nat \<times> (exn + 'r)"

definition submit :: "nat \<Rightarrow> ('a, 'r) task \<Rightarrow> exn + 'r future" where
  "submit i v = (case v of Task0 \<Rightarrow> Inl IndexError | _ \<Rightarrow> Inr (i, run_task v))"

fun submit_all :: "nat \<Rightarrow> ('k \<times> ('a, 'r) task) list \<Rightarrow> exn + ('r future \<times> 'k) list" where
  "submit_all i [] = Inr []"
| "submit_all i ((k, v) # tasks) =
     (case submit i v of
        Inl e \<Rightarrow> Inl e
      | Inr future \<Rightarrow>
          (case submit_all (Suc i) tasks of
             Inl e \<Rightarrow> Inl e
           | Inr futures \<Rightarrow> Inr ((future, k) # futures)))"

text \<open>
  \<^verbatim>\<open>{ futures[future]: future.result() for future in done }\<close>: \<^verbatim>\<open>result()\<close> raises again
  what the job raised, which ends the comprehension.
\<close>

fun collect_results ::
  "('r future \<times> 'k) list \<Rightarrow> 'r future list \<Rightarrow> ('k \<times> 'r) list \<Rightarrow> exn + ('k \<times> 'r) list" where
  "collect_results futures [] acc = Inr acc"
| "collect_results futures (future # rest) acc =
     (case map_of futures future of
        None \<Rightarrow> Inl KeyError
      | Some k \<Rightarrow>
          (case snd future of
             Inl e \<Rightarrow> Inl e
           | Inr r \<Rightarrow> collect_results futures rest (AList.update k r acc)))"

text \<open>
  A dictionary is an association list with distinct keys, in iteration order.
  \<^verbatim>\<open>wait(futures)\<close> returns all futures as the set \<^verbatim>\<open>done\<close>; the order in which Python
  iterates that set is the parameter \<open>set_order\<close>, some rearrangement of the futures.
\<close>

definition async_dispatch ::
  "('r future list \<Rightarrow> 'r future list) \<Rightarrow> ('k \<times> ('a, 'r) task) list \<Rightarrow> exn + ('k \<times> 'r) list" where
  "async_dispatch set_order tasks =
     (case submit_all 0 tasks of
        Inl e \<Rightarrow> Inl e
      | Inr futures \<Rightarrow> collect_results futures (set_order (map fst futures)) [])"

section \<open>\<^verbatim>\<open>nodesort\<close>: results ordered by cluster and name\<close>

record cluster =
  name :: string

record node =
  name :: string
  cluster :: cluster

text \<open>
  The key that \<^verbatim>\<open>natsort\<close> computes for a string (its default algorithm, unsigned
  integers): the string is cut into its runs of digits and its runs of other characters,
  each run of digits becomes its number, and a key that would start with a number gets an
  empty string in front, so that keys alternate between strings and numbers and are
  compared position by position like Python tuples. Where a number meets a string,
  Python 2 puts the number first; with the alternation this never decides a comparison
  of two keys.
\<close>

datatype chunk = N nat | S string

instantiation chunk :: linorder
begin

fun less_eq_chunk :: "chunk \<Rightarrow> chunk \<Rightarrow> bool" where
  "less_eq_chunk (N a) (N b) = (a \<le> b)"
| "less_eq_chunk (S a) (S b) = (a \<le> b)"
| "less_eq_chunk (N a) (S b) = True"
| "less_eq_chunk (S a) (N b) = False"

definition less_chunk :: "chunk \<Rightarrow> chunk \<Rightarrow> bool" where
  "less_chunk x y = (x \<le> y \<and> \<not> y \<le> x)"

instance
proof
  fix x y z :: chunk
  show "(x < y) = (x \<le> y \<and> \<not> y \<le> x)" by (simp add: less_chunk_def)
  show "x \<le> x" by (cases x) auto
  show "x \<le> y \<Longrightarrow> y \<le> z \<Longrightarrow> x \<le> z" by (cases x; cases y; cases z) auto
  show "x \<le> y \<Longrightarrow> y \<le> x \<Longrightarrow> x = y" by (cases x; cases y) auto
  show "x \<le> y \<or> y \<le> x" by (cases x; cases y) auto
qed

end

function natsort_split :: "string \<Rightarrow> chunk list" where
  "natsort_split [] = []"
| "natsort_split (c # s) =
     (if is_digit c
      then N (digits_value (c # takeWhile is_digit s)) # natsort_split (dropWhile is_digit s)
      else S (c # takeWhile (\<lambda>x. \<not> is_digit x) s)
             # natsort_split (dropWhile (\<lambda>x. \<not> is_digit x) s))"
  by pat_completeness auto
termination
  by (relation "measure length") (auto simp: length_dropWhile_le less_Suc_eq_le)

definition natsort_key :: "string \<Rightarrow> chunk list" where
  "natsort_key s =
     (case natsort_split s of
        N n # rest \<Rightarrow> S [] # N n # rest
      | cs \<Rightarrow> cs)"

text \<open>
  \<^verbatim>\<open>natsorted(seq, key=f)\<close> where \<^verbatim>\<open>f\<close> returns a list of strings: Python's stable
  \<^verbatim>\<open>sorted\<close> on the list of the strings' keys.
\<close>

definition natsorted :: "'a list \<Rightarrow> ('a \<Rightarrow> string list) \<Rightarrow> 'a list" where
  "natsorted xs key = sort_key (\<lambda>x. map natsort_key (key x)) xs"

text \<open>A dictionary built from pairs, one after the other: a key seen again keeps its place.\<close>

definition OrderedDict :: "('k \<times> 'v) list \<Rightarrow> ('k \<times> 'v) list" where
  "OrderedDict pairs = foldl (\<lambda>d (k, v). AList.update k v d) [] pairs"

definition nodesort :: "(node \<times> 'r) list \<Rightarrow> (node \<times> 'r) list" where
  "nodesort nodes =
     OrderedDict (natsorted nodes (\<lambda>t. [cluster.name (cluster (fst t)), node.name (fst t)]))"

section \<open>\<^verbatim>\<open>NodeSoapProxy\<close> and \<^verbatim>\<open>NodeListSoapProxy\<close>\<close>

text \<open>
  The classes of \<^verbatim>\<open>requests.exceptions\<close> with their ancestors there, and \<^verbatim>\<open>isinstance\<close>
  on them, which is what an \<^verbatim>\<open>except\<close> clause tests.
\<close>

fun requests_mro :: "requests_exception \<Rightarrow> requests_exception list" where
  "requests_mro RequestException = [RequestException]"
| "requests_mro HTTPError = [HTTPError, RequestException]"
| "requests_mro ConnectionError = [ConnectionError, RequestException]"
| "requests_mro ProxyError = [ProxyError, ConnectionError, RequestException]"
| "requests_mro SSLError = [SSLError, ConnectionError, RequestException]"
| "requests_mro Timeout = [Timeout, RequestException]"
| "requests_mro ConnectTimeout = [ConnectTimeout, ConnectionError, Timeout, RequestException]"
| "requests_mro ReadTimeout = [ReadTimeout, Timeout, RequestException]"
| "requests_mro TooManyRedirects = [TooManyRedirects, RequestException]"
| "requests_mro InvalidURL = [InvalidURL, RequestException]"

definition isinstance :: "requests_exception \<Rightarrow> requests_exception \<Rightarrow> bool" where
  "isinstance e c = (c \<in> set (requests_mro e))"

text \<open>The transport failures, and the exception with which \<^verbatim>\<open>requests.post\<close> reports each.\<close>

datatype transport_failure =
  ConnectionRefused | ConnectTimedOut | ReadTimedOut | TLSFailure | DNSFailure

fun requests_raises :: "transport_failure \<Rightarrow> requests_exception" where
  "requests_raises ConnectionRefused = ConnectionError"
| "requests_raises ConnectTimedOut = ConnectTimeout"
| "requests_raises ReadTimedOut = ReadTimeout"
| "requests_raises TLSFailure = SSLError"
| "requests_raises DNSFailure = ConnectionError"

text \<open>
  What \<^verbatim>\<open>halonctl.proxies.NodeSoapProxy\<close> is given: \<^verbatim>\<open>node.make_request\<close>, the HTTP
  round trip of \<^verbatim>\<open>requests.post\<close>, which answers \<^verbatim>\<open>(r.text, r.status_code, r.reason)\<close>,
  and \<^verbatim>\<open>context.process_reply\<close>; each returns or raises.
\<close>

record ('n, 'a, 'c) soap_env =
  make_request :: "'n \<Rightarrow> string \<Rightarrow> 'a list \<Rightarrow> (string \<times> 'a) list \<Rightarrow> exn + 'c"
  post :: "'n \<Rightarrow> 'c \<Rightarrow> exn + string \<times> int \<times> string"
  process_reply :: "'c \<Rightarrow> string \<Rightarrow> int \<Rightarrow> string \<Rightarrow> exn + call_result"

text \<open>
  \<^verbatim>\<open>_soap_proxy_executor\<close> of \<^verbatim>\<open>halonctl/proxies.py\<close>. The request is built outside the
  \<^verbatim>\<open>try\<close>; the round trip and \<^verbatim>\<open>process_reply\<close> are inside it.
\<close>

definition NodeSoapProxy_call ::
  "('n, 'a, 'c) soap_env \<Rightarrow> 'n \<Rightarrow> string \<Rightarrow> ('a, call_result) callable" where
  "NodeSoapProxy_call env node operation args kwargs =
     (case soap_env.make_request env node operation args kwargs of
        Inl e \<Rightarrow> Inl e
      | Inr context \<Rightarrow>
          (case (case post env node context of
                   Inl e \<Rightarrow> Inl e
                 | Inr (r_text, r_status_code, r_reason) \<Rightarrow>
                     soap_env.process_reply env context r_text r_status_code r_reason) of
             Inr result \<Rightarrow> Inr result
           | Inl (Requests e) \<Rightarrow>
               if isinstance e ConnectionError \<or> isinstance e Timeout
               then Inr (0, PNone) else Inl (Requests e)
           | Inl e \<Rightarrow> Inl e))"

text \<open>
  The same proxy in \<^verbatim>\<open>halon/proxies.py\<close>, over tornado's \<^verbatim>\<open>HTTPClient\<close>: \<^verbatim>\<open>fetch\<close>
  answers \<^verbatim>\<open>(result.body, result.code, result.reason)\<close> or raises \<^verbatim>\<open>HTTPError\<close> (code,
  message, body of the response if there is one) or something else, such as
  \<^verbatim>\<open>socket.error\<close> (message). A request context that is false (\<open>None\<close>) means that
  no request could be made.

  The module imports \<^verbatim>\<open>IOLoop\<close>, \<^verbatim>\<open>ThreadPoolExecutor\<close>, \<^verbatim>\<open>gen\<close> and the public
  names of \<^verbatim>\<open>tornado.concurrent\<close> and \<^verbatim>\<open>tornado.httpclient\<close>; the name \<^verbatim>\<open>socket\<close> is
  bound by none of them. An exception of the \<^verbatim>\<open>try\<close> block that is not an
  \<^verbatim>\<open>HTTPError\<close> therefore reaches the clause \<^verbatim>\<open>except socket.error\<close>, whose
  expression is evaluated to match it and raises \<^verbatim>\<open>NameError\<close>; that is the
  exception the caller sees. An exception raised inside the \<^verbatim>\<open>HTTPError\<close> handler
  leaves the call as it is, and \<^verbatim>\<open>http_client.close()\<close> in the \<^verbatim>\<open>finally\<close> clause
  does not change the outcome.
\<close>

record ('n, 'a, 'c, 'q) tornado_env =
  make_request :: "'n \<Rightarrow> string \<Rightarrow> 'a list \<Rightarrow> (string \<times> 'a) list \<Rightarrow> exn + 'c option"
  make_tornado_request :: "'n \<Rightarrow> 'c \<Rightarrow> exn + 'q"
  fetch :: "'q \<Rightarrow> exn + string option \<times> int \<times> string"
  process_reply :: "'c \<Rightarrow> string option \<Rightarrow> int \<Rightarrow> string \<Rightarrow> exn + call_result"

definition halon_NodeSoapProxy_call ::
  "('n, 'a, 'c, 'q) tornado_env \<Rightarrow> 'n \<Rightarrow> string \<Rightarrow> ('a, call_result) callable" where
  "halon_NodeSoapProxy_call env node operation args kwargs =
     (case tornado_env.make_request env node operation args kwargs of
        Inl e \<Rightarrow> Inl e
      | Inr None \<Rightarrow> Inr (0, PStr ''Couldn't connect'')
      | Inr (Some context) \<Rightarrow>
          (case make_tornado_request env node context of
             Inl e \<Rightarrow> Inl e
           | Inr request \<Rightarrow>
               (case (case fetch env request of
                        Inl e \<Rightarrow> Inl e
                      | Inr (result_body, result_code, result_reason) \<Rightarrow>
                          tornado_env.process_reply env context result_body result_code
                            result_reason) of
                  Inr result \<Rightarrow> Inr result
                | Inl (TornadoHTTPError e_code e_message e_body) \<Rightarrow>
                    tornado_env.process_reply env context e_body e_code e_message
                | Inl e \<Rightarrow> Inl NameError)))"

text \<open>
  \<^verbatim>\<open>NodeListSoapProxy\<close>: one job per node of the list, keyed by the node, through
  \<^verbatim>\<open>async_dispatch\<close> and \<^verbatim>\<open>nodesort\<close>. \<open>service node operation\<close> is
  \<^verbatim>\<open>getattr(node.service, name)\<close>.
\<close>

definition NodeListSoapProxy_call ::
  "(call_result future list \<Rightarrow> call_result future list)
     \<Rightarrow> (node \<Rightarrow> string \<Rightarrow> ('a, call_result) callable)
     \<Rightarrow> node list \<Rightarrow> string \<Rightarrow> 'a list \<Rightarrow> (string \<times> 'a) list
     \<Rightarrow> exn + (node \<times> call_result) list" where
  "NodeListSoapProxy_call set_order service nodelist operation args kwargs =
     (case async_dispatch set_order
             (OrderedDict
                (map (\<lambda>node. (node, Task3 (service node operation) args kwargs)) nodelist)) of
        Inl e \<Rightarrow> Inl e
      | Inr results \<Rightarrow> Inr (nodesort results))"

section \<open>\<^verbatim>\<open>to_base64\<close> and \<^verbatim>\<open>from_base64\<close>\<close>










text \<open>Nodes and transports for concrete runs.\<close>

definition mk_node :: "string \<Rightarrow> string \<Rightarrow> node" where
  "mk_node c n = \<lparr>node.name = n, cluster = \<lparr>cluster.name = c\<rparr>\<rparr>"

text \<open>
  A \<^verbatim>\<open>requests\<close> transport where one node answers, one fails its TLS handshake and the
  others time out while reading.
\<close>

definition flaky_env :: "(node, unit, unit) soap_env" where
  "flaky_env =
     \<lparr>soap_env.make_request = (\<lambda>node operation args kwargs. Inr ()),
      post = (\<lambda>node context.
        if node.name node = ''node2'' then Inr (''<ok/>'', 200, ''OK'')
        else if node.name node = ''node10'' then Inl (Requests SSLError)
        else Inl (Requests ReadTimeout)),
      soap_env.process_reply = (\<lambda>context r_text r_status_code r_reason.
        Inr (r_status_code, PStr r_text))\<rparr>"

text \<open>
  A tornado transport where no request context can be built for \<^verbatim>\<open>node10\<close>, and
  every connection to another node is refused.
\<close>

definition refused_env :: "(node, unit, unit, unit) tornado_env" where
  "refused_env =
     \<lparr>tornado_env.make_request = (\<lambda>node operation args kwargs.
        if node.name node = ''node10'' then Inr None else Inr (Some ())),
      make_tornado_request = (\<lambda>node context. Inr ()),
      fetch = (\<lambda>request. Inl (SocketError ''Connection refused'')),
      tornado_env.process_reply = (\<lambda>context result_body result_code result_reason.
        Inr (result_code, PNone))\<rparr>"

section \<open>The session's \<^verbatim>\<open>done\<close> flag\<close>

lemma read_done_mono:
  "done self \<Longrightarrow> done (snd (snd (CommandProxy_read service w self)))"
  by (auto simp: CommandProxy_read_def Let_def split: prod.splits sum.splits)

lemma write_done_mono:
  "done self \<Longrightarrow> done (snd (snd (CommandProxy_write service w self data)))"
  by (auto simp: CommandProxy_write_def split: prod.splits sum.splits)

lemma signal_done_mono:
  "done self \<Longrightarrow> done (snd (snd (CommandProxy_signal signal_module service w self sigid)))"
  by (auto simp: CommandProxy_signal_def split: prod.splits sum.splits sigarg.splits option.splits)

lemma stop_done: "done (snd (snd (CommandProxy_stop service w self)))"
  by (simp add: CommandProxy_stop_def Let_def split: prod.splits)

lemma next_done_mono:
  "done self \<Longrightarrow> done (snd (snd (CommandProxy_next service w self)))"
  using read_done_mono [of self service w]
  by (auto simp: CommandProxy_next_def split: prod.splits sum.splits)

lemma run_op_done_mono:
  "done (snd st) \<Longrightarrow> done (snd (run_op signal_module service st op))"
  using read_done_mono write_done_mono signal_done_mono stop_done next_done_mono
  by (cases st; cases op) (simp_all add: run_op_def)

text \<open>
  C8: after \<^verbatim>\<open>stop()\<close> the session is terminated (\<^verbatim>\<open>done\<close> is true) whatever the stop
  call reports, a failure status or an exception included, and \<^verbatim>\<open>stop()\<close> hands back
  exactly what the remote reported.
\<close>

theorem stop_always_terminates:
  "done (snd (snd (CommandProxy_stop service w self)))
   \<and> fst (CommandProxy_stop service w self) = fst (service w (CommandStop (cid self)))"
  by (simp add: CommandProxy_stop_def Let_def split: prod.splits)

text \<open>
  C9: \<^verbatim>\<open>done\<close> is monotonic. Once it is true, no sequence of read, write, signal, stop
  and next operations, against any remote, makes it false again.
\<close>

theorem done_monotonic:
  "done (snd st) \<Longrightarrow> done (snd (run_ops signal_module service st ops))"
proof (induction ops arbitrary: st)
  case Nil
  then show ?case by (simp add: run_ops_def)
next
  case (Cons op ops)
  have "done (snd (run_op signal_module service st op))"
    using Cons.prems by (rule run_op_done_mono)
  then have "done (snd (run_ops signal_module service (run_op signal_module service st op) ops))"
    by (rule Cons.IH)
  then show ?case by (simp add: run_ops_def)
qed

theorem done_monotonic_witness:
  "done (snd ([Inr (200, PStr ''out''), Inr (500, PNone)], \<lparr>cid = ''c1'', done = True\<rparr>))
   \<and> done (snd (run_ops Map.empty scripted
        ([Inr (200, PStr ''out''), Inr (500, PNone)], \<lparr>cid = ''c1'', done = True\<rparr>)
        [Read, Write ''ls'', Signal (SigInt 15), Next, Stop]))"
  using done_monotonic [of "([Inr (200, PStr ''out''), Inr (500, PNone)], \<lparr>cid = ''c1'', done = True\<rparr>)"
      Map.empty scripted "[Read, Write ''ls'', Signal (SigInt 15), Next, Stop]"]
  by simp

section \<open>Reading a session\<close>

lemma next_success:
  "service w (CommandPoll (cid self)) = (Inr (200, p), w') \<Longrightarrow> read_payload p = Inr d \<Longrightarrow>
   CommandProxy_next service w self = (Inr d, w', self)"
  by (simp add: CommandProxy_next_def CommandProxy_read_def)

lemma next_stop:
  "service w (CommandPoll (cid self)) = (Inr (code, p), w') \<Longrightarrow> code \<noteq> 200 \<Longrightarrow>
   read_payload p = Inr d \<Longrightarrow>
   CommandProxy_next service w self = (Inl StopIteration, w', self\<lparr>done := True\<rparr>)"
  by (simp add: CommandProxy_next_def CommandProxy_read_def)

lemma world_after_polls_add:
  "world_after_polls service c (world_after_polls service c w k) i =
   world_after_polls service c w (k + i)"
  by (induction k arbitrary: w) simp_all

lemma poll_at_add:
  "poll_at service c (world_after_polls service c w k) i = poll_at service c w (k + i)"
  by (simp add: poll_at_def world_after_polls_add)

lemma iter_run:
  "(\<And>i. i < n \<Longrightarrow>
      \<exists>p. poll_at service (cid self) w i = Inr (200, p) \<and> read_payload p = Inr (chunk i)) \<Longrightarrow>
   poll_at service (cid self) w n = Inr (code, q) \<Longrightarrow> code \<noteq> 200 \<Longrightarrow>
   read_payload q = Inr d \<Longrightarrow>
   CommandProxy_iter service w self acc =
     Some (Inr (acc @ map chunk [0..<n]), world_after_polls service (cid self) w (Suc n),
           self\<lparr>done := True\<rparr>)"
proof (induction n arbitrary: w acc chunk)
  case 0
  obtain r w' where sv: "service w (CommandPoll (cid self)) = (r, w')"
    by (cases "service w (CommandPoll (cid self))")
  with 0 have r: "r = Inr (code, q)" by (simp add: poll_at_def)
  have "CommandProxy_next service w self = (Inl StopIteration, w', self\<lparr>done := True\<rparr>)"
    using next_stop sv r 0 by metis
  then show ?case using sv by (subst CommandProxy_iter.simps) simp
next
  case (Suc n)
  obtain r w' where sv: "service w (CommandPoll (cid self)) = (r, w')"
    by (cases "service w (CommandPoll (cid self))")
  from Suc.prems(1)[of 0] obtain p where
    p: "poll_at service (cid self) w 0 = Inr (200, p)" "read_payload p = Inr (chunk 0)"
    by auto
  with sv have r: "r = Inr (200, p)" by (simp add: poll_at_def)
  have nx: "CommandProxy_next service w self = (Inr (chunk 0), w', self)"
    using next_success sv r p by metis
  have shift: "\<And>i. poll_at service (cid self) w (Suc i) = poll_at service (cid self) w' i"
    using sv by (simp add: poll_at_def)
  have "CommandProxy_iter service w' self (acc @ [chunk 0]) =
     Some (Inr ((acc @ [chunk 0]) @ map (chunk \<circ> Suc) [0..<n]),
           world_after_polls service (cid self) w' (Suc n), self\<lparr>done := True\<rparr>)"
  proof (rule Suc.IH)
    fix i assume "i < n"
    then have "Suc i < Suc n" by simp
    from Suc.prems(1)[OF this]
    show "\<exists>p. poll_at service (cid self) w' i = Inr (200, p)
            \<and> read_payload p = Inr ((chunk \<circ> Suc) i)"
      by (simp add: shift)
  next
    show "poll_at service (cid self) w' n = Inr (code, q)"
      using Suc.prems(2) by (simp add: shift)
  qed (use Suc.prems in auto)
  moreover have "map chunk [0..<Suc n] = chunk 0 # map (chunk \<circ> Suc) [0..<n]"
    by (simp add: map_upt_Suc del: upt_Suc)
  ultimately show ?case using nx sv
    by (subst CommandProxy_iter.simps) (simp del: upt_Suc)
qed

lemma done_update_idem: "done self \<Longrightarrow> self\<lparr>done := True\<rparr> = self"
  by (cases self) simp

text \<open>
  C5, as amended: the traversal yields the chunk of every poll that answers 200, stops at
  the first poll with another status (issuing no further poll) and marks the session
  done; when the very first poll does not succeed the sequence is empty. A second
  traversal polls the remote again: it yields no chunks when that poll is again not a
  success, and it yields the chunk when that poll answers 200.
\<close>

theorem read_sequence:
  assumes "\<And>i. i < n \<Longrightarrow>
      \<exists>p. poll_at service (cid self) w i = Inr (200, p) \<and> read_payload p = Inr (chunk i)"
    and "poll_at service (cid self) w n = Inr (code, q)"
    and "code \<noteq> 200"
    and "read_payload q = Inr d"
  shows "CommandProxy_iter service w self [] =
           Some (Inr (map chunk [0..<n]), world_after_polls service (cid self) w (Suc n),
                 self\<lparr>done := True\<rparr>)
       \<and> (n = 0 \<longrightarrow> fst (the (CommandProxy_iter service w self [])) = Inr [])
       \<and> (\<forall>code' q' d'. poll_at service (cid self) w (Suc n) = Inr (code', q') \<longrightarrow>
            read_payload q' = Inr d' \<longrightarrow>
            (code' \<noteq> 200 \<longrightarrow>
               CommandProxy_iter service (world_after_polls service (cid self) w (Suc n))
                 (self\<lparr>done := True\<rparr>) [] =
               Some (Inr [], world_after_polls service (cid self) w (Suc (Suc n)),
                     self\<lparr>done := True\<rparr>))
            \<and> (code' = 200 \<longrightarrow>
               fst (CommandProxy_next service (world_after_polls service (cid self) w (Suc n))
                 (self\<lparr>done := True\<rparr>)) = Inr d'))"
proof -
  let ?w1 = "world_after_polls service (cid self) w (Suc n)"
  let ?s1 = "self\<lparr>done := True\<rparr>"
  have first: "CommandProxy_iter service w self [] =
      Some (Inr (map chunk [0..<n]), ?w1, ?s1)"
    using iter_run [of n service self w chunk code q d "[]"] assms by simp
  have second: "CommandProxy_iter service ?w1 ?s1 [] =
      Some (Inr [], world_after_polls service (cid self) w (Suc (Suc n)), ?s1)"
    if "poll_at service (cid self) w (Suc n) = Inr (code', q')" "read_payload q' = Inr d'"
       "code' \<noteq> 200" for code' q' d'
  proof -
    have "poll_at service (cid ?s1) ?w1 0 = Inr (code', q')"
      using that(1) poll_at_add [of service "cid self" w "Suc n" 0] by simp
    from iter_run [of 0 service ?s1 ?w1 chunk code' q' d' "[]", OF _ this that(3) that(2)]
    show ?thesis
      using world_after_polls_add [of service "cid self" w "Suc n" "Suc 0"] by simp
  qed
  have again: "fst (CommandProxy_next service ?w1 ?s1) = Inr d'"
    if "poll_at service (cid self) w (Suc n) = Inr (200, q')" "read_payload q' = Inr d'"
    for q' d'
  proof -
    obtain r w' where sv: "service ?w1 (CommandPoll (cid ?s1)) = (r, w')"
      by (cases "service ?w1 (CommandPoll (cid ?s1))")
    have "poll_at service (cid self) ?w1 0 = Inr (200, q')"
      using that(1) poll_at_add [of service "cid self" w "Suc n" 0] by simp
    with sv have "service ?w1 (CommandPoll (cid ?s1)) = (Inr (200, q'), w')"
      by (simp add: poll_at_def)
    then show ?thesis
      using next_success [of service ?w1 ?s1 q' w' d'] that(2) by simp
  qed
  show ?thesis using first second again by auto
qed

theorem read_sequence_witness:
  "CommandProxy_iter scripted
     [Inr (200, PItems [''aGVs'', ''bG8='']), Inr (200, PStr ''!''), Inr (0, PNone), Inr (500, PNone)]
     \<lparr>cid = ''c1'', done = False\<rparr> [] =
   Some (Inr [PStr ''hello'', PStr ''!''], [Inr (500, PNone)], \<lparr>cid = ''c1'', done = True\<rparr>)
   \<and> CommandProxy_iter scripted [Inr (500, PNone)] \<lparr>cid = ''c1'', done = True\<rparr> [] =
   Some (Inr [], [], \<lparr>cid = ''c1'', done = True\<rparr>)"
proof -
  let ?W = "[Inr (200, PItems [''aGVs'', ''bG8='']), Inr (200, PStr ''!''), Inr (0, PNone),
             Inr (500, PNone)] :: (exn + call_result) list"
  let ?s = "\<lparr>cid = ''c1'', done = False\<rparr>"
  let ?chunk = "\<lambda>i::nat. if i = 0 then PStr ''hello'' else PStr ''!''"
  have d0: "read_payload (PItems [''aGVs'', ''bG8='']) = Inr (PStr ''hello'')"
    by code_simp
  have h1: "\<exists>p. poll_at scripted (cid ?s) ?W i = Inr (200, p) \<and> read_payload p = Inr (?chunk i)"
    if "i < 2" for i
  proof -
    from that consider "i = 0" | "i = Suc 0" by linarith
    then show ?thesis
      by cases (simp_all add: poll_at_def scripted_def d0, simp add: read_payload_def)
  qed
  have h2: "poll_at scripted (cid ?s) ?W 2 = Inr (0, PNone)"
    by (simp add: poll_at_def scripted_def numeral_2_eq_2)
  have h3: "(0::int) \<noteq> 200" by simp
  have h4: "read_payload PNone = Inr PNone" by (simp add: read_payload_def)
  have h5: "poll_at scripted (cid ?s) ?W (Suc 2) = Inr (500, PNone)"
    by (simp add: poll_at_def scripted_def numeral_2_eq_2)
  from read_sequence [of 2 scripted ?s ?W ?chunk 0 PNone PNone, OF h1 h2 h3 h4] h5 h4
  show ?thesis
    by (simp add: scripted_def numeral_2_eq_2)
qed

theorem second_traversal_counterexample:
  "CommandProxy_iter scripted [Inr (0, PNone), Inr (200, PStr ''late''), Inr (500, PNone)]
     \<lparr>cid = ''c1'', done = False\<rparr> [] =
   Some (Inr [], [Inr (200, PStr ''late''), Inr (500, PNone)], \<lparr>cid = ''c1'', done = True\<rparr>)
   \<and> CommandProxy_iter scripted [Inr (200, PStr ''late''), Inr (500, PNone)]
     \<lparr>cid = ''c1'', done = True\<rparr> [] =
   Some (Inr [PStr ''late''], [], \<lparr>cid = ''c1'', done = True\<rparr>)"
  by (simp add: CommandProxy_iter.simps CommandProxy_next_def CommandProxy_read_def scripted_def
      read_payload_def)

text \<open>
  C6, as amended: with \<^verbatim>\<open>done\<close> true, read, write and signal still call the remote and
  hand back its answer (read with the items decoded), and \<^verbatim>\<open>done\<close> stays true; a read
  ends the output only when that poll's status is not 200.
\<close>

theorem calls_after_done:
  "done self \<Longrightarrow>
     CommandProxy_read service w self =
       (case service w (CommandPoll (cid self)) of
          (Inl e, w') \<Rightarrow> (Inl e, w', self)
        | (Inr (code, res), w') \<Rightarrow>
            (case read_payload res of
               Inl e \<Rightarrow> (Inl e, w', self)
             | Inr data \<Rightarrow> (Inr (code, data), w', self)))
     \<and> CommandProxy_write service w self data =
       (case service w (CommandPush (cid self) (b64encode data)) of (r, w') \<Rightarrow> (r, w', self))
     \<and> CommandProxy_signal signal_module service w self (SigInt n) =
       (case service w (CommandSignal (cid self) n) of (r, w') \<Rightarrow> (r, w', self))"
  by (auto simp: CommandProxy_read_def CommandProxy_write_def CommandProxy_signal_def
      done_update_idem split: prod.splits sum.splits)

theorem calls_after_done_witness:
  "done \<lparr>cid = ''c1'', done = True\<rparr>
   \<and> CommandProxy_write recording [] \<lparr>cid = ''c1'', done = True\<rparr> ''ls'' =
     (Inr (200, PNone), [CommandPush ''c1'' (b64encode ''ls'')], \<lparr>cid = ''c1'', done = True\<rparr>)
   \<and> CommandProxy_signal signal_module_linux recording [] \<lparr>cid = ''c1'', done = True\<rparr> (SigInt 9) =
     (Inr (200, PNone), [CommandSignal ''c1'' 9], \<lparr>cid = ''c1'', done = True\<rparr>)"
proof -
  have h: "done \<lparr>cid = ''c1'', done = True\<rparr>" by simp
  from calls_after_done [OF h, where service = recording and w = "[]" and data = "''ls''"
      and signal_module = signal_module_linux and n = 9]
  show ?thesis by (simp add: recording_def)
qed

theorem fresh_data_after_done_counterexample:
  "done \<lparr>cid = ''c1'', done = True\<rparr>
   \<and> CommandProxy_read scripted [Inr (200, PItems [''ZnJlc2g=''])] \<lparr>cid = ''c1'', done = True\<rparr> =
     (Inr (200, PStr ''fresh''), [], \<lparr>cid = ''c1'', done = True\<rparr>)
   \<and> CommandProxy_next scripted [Inr (200, PItems [''ZnJlc2g=''])] \<lparr>cid = ''c1'', done = True\<rparr> =
     (Inr (PStr ''fresh''), [], \<lparr>cid = ''c1'', done = True\<rparr>)"
  by code_simp

section \<open>Resolving a signal\<close>

lemma set_strip: "set (strip s) \<subseteq> set s"
proof -
  have "set (strip s) = set (dropWhile is_space (rev (dropWhile is_space s)))"
    by (simp add: strip_def)
  also have "\<dots> \<subseteq> set (rev (dropWhile is_space s))" by (auto dest: set_dropWhileD)
  also have "\<dots> \<subseteq> set s" by (auto dest: set_dropWhileD)
  finally show ?thesis .
qed

lemma int_of_str_has_digit: "int_of_str s = Some n \<Longrightarrow> has_digit s"
proof -
  assume a: "int_of_str s = Some n"
  then obtain c r where cr: "strip s = c # r"
    by (auto simp: int_of_str_def split: list.splits)
  define ds where "ds = (if c = CHR ''-'' \<or> c = CHR ''+'' then r else c # r)"
  from a cr have "ds \<noteq> [] \<and> list_all is_digit ds"
    by (auto simp: int_of_str_def ds_def Let_def split: if_splits)
  then obtain d where "d \<in> set ds" "is_digit d"
    by (cases ds) auto
  moreover have "set ds \<subseteq> set (strip s)" by (auto simp: ds_def cr)
  ultimately show ?thesis using set_strip [of s] by (auto simp: has_digit_def list_ex_iff)
qed

lemma upper_char_digit: "is_digit c \<Longrightarrow> upper_char c = c"
  by (simp add: is_digit_def upper_char_def)

lemma is_digit_upper_char: "is_digit (upper_char c) \<Longrightarrow> is_digit c"
  by (cases "97 \<le> (of_char c :: nat) \<and> (of_char c :: nat) \<le> 122")
    (auto simp: is_digit_def upper_char_def)

lemma has_digit_upper: "has_digit (upper s) = has_digit s"
  unfolding has_digit_def upper_def list_ex_iff
  using upper_char_digit is_digit_upper_char by (metis (no_types, lifting) image_iff list.set_map)

lemma sigterm_not_numeric: "upper sig_name = ''SIGTERM'' \<Longrightarrow> int_of_str sig_name = None"
proof (rule ccontr)
  assume u: "upper sig_name = ''SIGTERM''" and "int_of_str sig_name \<noteq> None"
  then obtain n where "int_of_str sig_name = Some n" by auto
  then have "has_digit (upper sig_name)" by (simp add: has_digit_upper int_of_str_has_digit)
  then show False unfolding u by (simp add: has_digit_def is_digit_def)
qed

text \<open>
  C7: an integer argument is the number sent; where the \<^verbatim>\<open>signal\<close> module has
  \<^verbatim>\<open>SIGTERM = 15\<close>, every spelling of \<^verbatim>\<open>SIGTERM\<close> in any letter case makes the same call
  as \<^verbatim>\<open>signal(15)\<close>; and a name that is not a number and that the module lacks raises
  \<^verbatim>\<open>AttributeError\<close> to the caller, with no call made to the remote.
\<close>

theorem signal_resolution:
  "(CommandProxy_signal signal_module service w self (SigInt n) =
      (case service w (CommandSignal (cid self) n) of
         (Inl e, w') \<Rightarrow> (Inl e, w', self)
       | (Inr (code, res), w') \<Rightarrow>
           (Inr (code, res), w', if code \<noteq> 200 then self\<lparr>done := True\<rparr> else self)))
   \<and> (signal_module ''SIGTERM'' = Some 15 \<longrightarrow> upper sig_name = ''SIGTERM'' \<longrightarrow>
        CommandProxy_signal signal_module service w self (SigStr sig_name) =
        CommandProxy_signal signal_module service w self (SigInt 15))
   \<and> (int_of_str other_name = None \<longrightarrow> signal_module (upper other_name) = None \<longrightarrow>
        CommandProxy_signal signal_module service w self (SigStr other_name) =
        (Inl AttributeError, w, self))"
  by (simp add: CommandProxy_signal_def sigterm_not_numeric)

theorem signal_resolution_witness:
  "CommandProxy_signal signal_module_linux recording [] \<lparr>cid = ''c1'', done = False\<rparr> (SigInt 15) =
     (Inr (200, PNone), [CommandSignal ''c1'' 15], \<lparr>cid = ''c1'', done = False\<rparr>)
   \<and> CommandProxy_signal signal_module_linux recording [] \<lparr>cid = ''c1'', done = False\<rparr>
       (SigStr ''SigTerm'') =
     (Inr (200, PNone), [CommandSignal ''c1'' 15], \<lparr>cid = ''c1'', done = False\<rparr>)
   \<and> CommandProxy_signal signal_module_linux recording [] \<lparr>cid = ''c1'', done = False\<rparr>
       (SigStr ''sigfoo'') =
     (Inl AttributeError, [], \<lparr>cid = ''c1'', done = False\<rparr>)"
proof -
  have h1: "signal_module_linux ''SIGTERM'' = Some 15" by code_simp
  have h2: "upper ''SigTerm'' = ''SIGTERM''" by code_simp
  have h3: "int_of_str ''sigfoo'' = None" by code_simp
  have h4: "signal_module_linux (upper ''sigfoo'') = None" by code_simp
  from signal_resolution [where signal_module = signal_module_linux and service = recording
      and w = "[]" and self = "\<lparr>cid = ''c1'', done = False\<rparr>" and n = 15
      and sig_name = "''SigTerm''" and other_name = "''sigfoo''"] h1 h2 h3 h4
  show ?thesis by (simp add: recording_def)
qed

section \<open>The dispatcher\<close>

lemma submit_all_Inl:
  "submit_all i tasks = Inl e \<Longrightarrow> e = IndexError \<and> (\<exists>k. (k, Task0) \<in> set tasks)"
proof (induction tasks arbitrary: i)
  case Nil
  then show ?case by simp
next
  case (Cons kv tasks)
  obtain k v where kv: "kv = (k, v)" by (cases kv)
  show ?case
  proof (cases v)
    case Task0
    with Cons.prems kv show ?thesis by (auto simp: submit_def)
  next
    case (Task1 f)
    with Cons.prems kv have "submit_all (Suc i) tasks = Inl e"
      by (auto simp: submit_def split: sum.splits)
    from Cons.IH [OF this] show ?thesis by auto
  next
    case (Task2 f a)
    with Cons.prems kv have "submit_all (Suc i) tasks = Inl e"
      by (auto simp: submit_def split: sum.splits)
    from Cons.IH [OF this] show ?thesis by auto
  next
    case (Task3 f a kw)
    with Cons.prems kv have "submit_all (Suc i) tasks = Inl e"
      by (auto simp: submit_def split: sum.splits)
    from Cons.IH [OF this] show ?thesis by auto
  qed
qed

lemma submit_Inr: "submit i v = Inr f \<Longrightarrow> f = (i, run_task v) \<and> v \<noteq> Task0"
  by (cases v) (auto simp: submit_def)

lemma submit_all_total:
  "\<forall>(k, v) \<in> set tasks. v \<noteq> Task0 \<Longrightarrow> \<exists>futures. submit_all i tasks = Inr futures"
proof (induction tasks arbitrary: i)
  case Nil
  then show ?case by simp
next
  case (Cons kv tasks)
  obtain k v where kv: "kv = (k, v)" by (cases kv)
  with Cons.prems have "v \<noteq> Task0" by auto
  then have "submit i v = Inr (i, run_task v)" by (cases v) (auto simp: submit_def)
  moreover from Cons obtain fs where "submit_all (Suc i) tasks = Inr fs" by fastforce
  ultimately show ?case using kv by simp
qed

lemma submit_all_futures:
  "submit_all i tasks = Inr futures \<Longrightarrow>
     (\<forall>(f, k) \<in> set futures. i \<le> fst f)
   \<and> distinct (map fst futures)
   \<and> (\<forall>(f, k) \<in> set futures. \<exists>v. (k, v) \<in> set tasks \<and> snd f = run_task v)
   \<and> (\<forall>(k, v) \<in> set tasks. \<exists>j. ((j, run_task v), k) \<in> set futures)"
proof (induction tasks arbitrary: i futures)
  case Nil
  then show ?case by simp
next
  case (Cons kv tasks)
  obtain k v where kv: "kv = (k, v)" by (cases kv)
  from Cons.prems kv obtain f fs where
    f: "submit i v = Inr f" and fs: "submit_all (Suc i) tasks = Inr fs"
    and fut: "futures = (f, k) # fs"
    by (auto split: sum.splits)
  from submit_Inr [OF f] have fv: "f = (i, run_task v)" by simp
  from Cons.IH [OF fs] have
    ih1: "\<forall>(f, k) \<in> set fs. Suc i \<le> fst f" and
    ih2: "distinct (map fst fs)" and
    ih3: "\<forall>(f, k) \<in> set fs. \<exists>v. (k, v) \<in> set tasks \<and> snd f = run_task v" and
    ih4: "\<forall>(k, v) \<in> set tasks. \<exists>j. ((j, run_task v), k) \<in> set fs"
    by auto
  have a: "\<forall>(f, k) \<in> set futures. i \<le> fst f"
    using ih1 fut fv by fastforce
  have "f \<notin> fst ` set fs" using ih1 fv by fastforce
  then have b: "distinct (map fst futures)" using ih2 fut by simp
  have c: "\<forall>(f, k) \<in> set futures. \<exists>v. (k, v) \<in> set (kv # tasks) \<and> snd f = run_task v"
    using ih3 fut fv kv by fastforce
  have d: "\<forall>(k, v) \<in> set (kv # tasks). \<exists>j. ((j, run_task v), k) \<in> set futures"
    using ih4 fut fv kv by fastforce
  show ?case using a b c d by blast
qed

lemma collect_results_Inl:
  "collect_results futures order acc = Inl e \<Longrightarrow>
   (\<exists>f \<in> set order. snd f = Inl e) \<or> (\<exists>f \<in> set order. map_of futures f = None)"
  by (induction order arbitrary: acc) (auto split: option.splits sum.splits)

lemma collect_results_Inr:
  "collect_results futures order acc = Inr m \<Longrightarrow>
     (\<forall>f \<in> set order. \<exists>r k. snd f = Inr r \<and> map_of futures f = Some k)
   \<and> (distinct (map fst acc) \<longrightarrow> distinct (map fst m))
   \<and> fst ` set m = fst ` set acc \<union> {k. \<exists>f \<in> set order. map_of futures f = Some k}
   \<and> (\<forall>k r. map_of m k = Some r \<longrightarrow>
         map_of acc k = Some r \<or> (\<exists>f \<in> set order. map_of futures f = Some k \<and> snd f = Inr r))"
proof (induction order arbitrary: acc)
  case Nil
  then show ?case by simp
next
  case (Cons f order)
  from Cons.prems obtain k r where
    k: "map_of futures f = Some k" and r: "snd f = Inr r"
    and rest: "collect_results futures order (AList.update k r acc) = Inr m"
    by (auto split: option.splits sum.splits)
  from Cons.IH [OF rest] have
    ih1: "\<forall>f \<in> set order. \<exists>r k. snd f = Inr r \<and> map_of futures f = Some k" and
    ih2: "distinct (map fst (AList.update k r acc)) \<longrightarrow> distinct (map fst m)" and
    ih3: "fst ` set m = fst ` set (AList.update k r acc)
            \<union> {k. \<exists>f \<in> set order. map_of futures f = Some k}" and
    ih4: "\<forall>k' r'. map_of m k' = Some r' \<longrightarrow>
            map_of (AList.update k r acc) k' = Some r'
            \<or> (\<exists>f \<in> set order. map_of futures f = Some k' \<and> snd f = Inr r')"
    by auto
  have a: "\<forall>g \<in> set (f # order). \<exists>r k. snd g = Inr r \<and> map_of futures g = Some k"
    using ih1 k r by auto
  have b: "distinct (map fst acc) \<longrightarrow> distinct (map fst m)"
    using ih2 by (simp add: distinct_update)
  have c: "fst ` set m = fst ` set acc \<union> {k. \<exists>g \<in> set (f # order). map_of futures g = Some k}"
    using ih3 k by (auto simp: dom_update)
  have d: "\<forall>k' r'. map_of m k' = Some r' \<longrightarrow>
            map_of acc k' = Some r'
            \<or> (\<exists>g \<in> set (f # order). map_of futures g = Some k' \<and> snd g = Inr r')"
  proof (intro allI impI)
    fix k' r' assume "map_of m k' = Some r'"
    with ih4 consider "map_of (AList.update k r acc) k' = Some r'"
      | "\<exists>g \<in> set order. map_of futures g = Some k' \<and> snd g = Inr r'" by blast
    then show "map_of acc k' = Some r'
            \<or> (\<exists>g \<in> set (f # order). map_of futures g = Some k' \<and> snd g = Inr r')"
    proof cases
      case 1
      then show ?thesis using k r by (auto simp: update_Some_unfold)
    next
      case 2
      then show ?thesis by auto
    qed
  qed
  show ?case using a b c d by blast
qed

lemma collect_results_total:
  "\<forall>f \<in> set order. map_of futures f \<noteq> None \<and> (\<exists>r. snd f = Inr r) \<Longrightarrow>
   \<exists>m. collect_results futures order acc = Inr m"
  by (induction order arbitrary: acc) auto

lemma map_of_futures:
  "distinct (map fst futures) \<Longrightarrow> (f, k) \<in> set futures \<Longrightarrow> map_of futures f = Some k"
  by simp

lemma async_dispatch_outcome:
  assumes perm: "\<forall>xs. mset (set_order xs) = mset xs"
    and keys: "distinct (map fst tasks)"
  shows "((\<exists>(k, v) \<in> set tasks. \<exists>e. run_task v = Inl e) \<longrightarrow>
            (\<exists>e. async_dispatch set_order tasks = Inl e
               \<and> (\<exists>(k, v) \<in> set tasks. run_task v = Inl e)))
       \<and> (\<forall>m. async_dispatch set_order tasks = Inr m \<longrightarrow>
            (\<forall>(k, v) \<in> set tasks. \<exists>r. run_task v = Inr r \<and> map_of m k = Some r)
            \<and> fst ` set m = fst ` set tasks \<and> distinct (map fst m))"
proof (cases "submit_all 0 tasks")
  case (Inl e)
  from submit_all_Inl [OF Inl] obtain k where "e = IndexError" "(k, Task0) \<in> set tasks"
    by auto
  then have "\<exists>(k, v) \<in> set tasks. run_task v = Inl e" by force
  then show ?thesis using Inl by (simp add: async_dispatch_def)
next
  case (Inr futures)
  let ?order = "set_order (map fst futures)"
  have order: "set ?order = fst ` set futures"
    using perm mset_eq_setD [of ?order "map fst futures"] by simp
  from submit_all_futures [OF Inr] have
    dist: "distinct (map fst futures)" and
    origin_all: "\<forall>(f, k) \<in> set futures. \<exists>v. (k, v) \<in> set tasks \<and> snd f = run_task v" and
    future_of: "\<forall>(k, v) \<in> set tasks. \<exists>j. ((j, run_task v), k) \<in> set futures"
    by auto
  have disp: "async_dispatch set_order tasks = collect_results futures ?order []"
    using Inr by (simp add: async_dispatch_def)
  have known: "map_of futures f \<noteq> None" if "f \<in> set ?order" for f
    using that order by (metis map_of_eq_None_iff)
  have origin: "\<exists>v. (k, v) \<in> set tasks \<and> snd f = run_task v" if "map_of futures f = Some k" for f k
    using map_of_SomeD [OF that] origin_all by auto
  have part1: "\<exists>e. async_dispatch set_order tasks = Inl e
               \<and> (\<exists>(k, v) \<in> set tasks. run_task v = Inl e)"
    if "\<exists>(k, v) \<in> set tasks. \<exists>e. run_task v = Inl e"
  proof -
    from that obtain k v e0 where kv: "(k, v) \<in> set tasks" "run_task v = Inl e0" by auto
    with future_of obtain j where j: "((j, Inl e0), k) \<in> set futures" by force
    then have inorder: "(j, Inl e0) \<in> set ?order" using order by force
    show ?thesis
    proof (cases "collect_results futures ?order []")
      case (Inl e)
      from collect_results_Inl [OF Inl] known obtain f where
        f: "f \<in> set ?order" "snd f = Inl e" by blast
      from known [OF f(1)] obtain k' where "map_of futures f = Some k'" by auto
      from origin [OF this] f(2) have "\<exists>(k, v) \<in> set tasks. run_task v = Inl e" by force
      then show ?thesis using Inl disp by simp
    next
      case (Inr m)
      from collect_results_Inr [OF Inr] inorder have False by fastforce
      then show ?thesis ..
    qed
  qed
  have part2: "(\<forall>(k, v) \<in> set tasks. \<exists>r. run_task v = Inr r \<and> map_of m k = Some r)
            \<and> fst ` set m = fst ` set tasks \<and> distinct (map fst m)"
    if "async_dispatch set_order tasks = Inr m" for m
  proof -
    from that disp have col: "collect_results futures ?order [] = Inr m" by simp
    from collect_results_Inr [OF col] have
      c1: "\<forall>f \<in> set ?order. \<exists>r k. snd f = Inr r \<and> map_of futures f = Some k" and
      c2: "distinct (map fst m)" and
      c3: "fst ` set m = {k. \<exists>f \<in> set ?order. map_of futures f = Some k}" and
      c4: "\<forall>k r. map_of m k = Some r \<longrightarrow>
             (\<exists>f \<in> set ?order. map_of futures f = Some k \<and> snd f = Inr r)"
      by auto
    have keys_eq: "fst ` set m = fst ` set tasks"
    proof
      show "fst ` set m \<subseteq> fst ` set tasks"
      proof
        fix k assume "k \<in> fst ` set m"
        with c3 obtain f where "map_of futures f = Some k" by blast
        from origin [OF this] show "k \<in> fst ` set tasks" by force
      qed
      show "fst ` set tasks \<subseteq> fst ` set m"
      proof
        fix k assume "k \<in> fst ` set tasks"
        then obtain v where "(k, v) \<in> set tasks" by auto
        with future_of obtain j where j: "((j, run_task v), k) \<in> set futures" by force
        then have "(j, run_task v) \<in> set ?order" using order by force
        moreover have "map_of futures (j, run_task v) = Some k"
          using map_of_futures [OF dist j] .
        ultimately show "k \<in> fst ` set m" using c3 by blast
      qed
    qed
    have vals: "\<exists>r. run_task v = Inr r \<and> map_of m k = Some r" if kv: "(k, v) \<in> set tasks" for k v
    proof -
      from kv keys_eq have "k \<in> fst ` set m" by force
      then obtain r where r: "map_of m k = Some r"
        by (metis map_of_eq_None_iff not_None_eq)
      with c4 obtain f where f: "map_of futures f = Some k" "snd f = Inr r" by blast
      from origin [OF f(1)] obtain v' where v': "(k, v') \<in> set tasks" "snd f = run_task v'"
        by auto
      from keys kv v'(1) have "v' = v" by (meson eq_key_imp_eq_value)
      then show ?thesis using r f(2) v'(2) by simp
    qed
    show ?thesis using keys_eq vals c2 by blast
  qed
  show ?thesis using part1 part2 by blast
qed

lemma async_dispatch_total:
  assumes perm: "\<forall>xs. mset (set_order xs) = mset xs"
    and ok: "\<forall>(k, v) \<in> set tasks. \<exists>r. run_task v = Inr r"
  shows "\<exists>m. async_dispatch set_order tasks = Inr m"
proof -
  have "\<forall>(k, v) \<in> set tasks. v \<noteq> Task0" using ok by fastforce
  from submit_all_total [OF this] obtain futures where fut: "submit_all 0 tasks = Inr futures"
    by blast
  let ?order = "set_order (map fst futures)"
  have order: "set ?order = fst ` set futures"
    using perm mset_eq_setD [of ?order "map fst futures"] by simp
  from submit_all_futures [OF fut] have
    origin_all: "\<forall>(f, k) \<in> set futures. \<exists>v. (k, v) \<in> set tasks \<and> snd f = run_task v"
    by auto
  have "map_of futures f \<noteq> None \<and> (\<exists>r. snd f = Inr r)" if "f \<in> set ?order" for f
  proof -
    from that order obtain k where fk: "(f, k) \<in> set futures" by auto
    then have "map_of futures f \<noteq> None" by (metis map_of_eq_None_iff fst_conv image_eqI)
    moreover from fk origin_all obtain v where "(k, v) \<in> set tasks" "snd f = run_task v"
      by blast
    with ok have "\<exists>r. snd f = Inr r" by fastforce
    ultimately show ?thesis by simp
  qed
  then have "\<exists>m. collect_results futures ?order [] = Inr m"
    by (intro collect_results_total) blast
  then show ?thesis using fut by (simp add: async_dispatch_def)
qed

lemma update_nonmember:
  "k \<notin> fst ` set al \<Longrightarrow> AList.update k v al = al @ [(k, v)]"
  by (induction al) auto

lemma foldl_update_distinct:
  "distinct (map fst (acc @ xs)) \<Longrightarrow>
   foldl (\<lambda>d (k, v). AList.update k v d) acc xs = acc @ xs"
proof (induction xs arbitrary: acc)
  case Nil
  then show ?case by simp
next
  case (Cons x xs)
  obtain k v where x: "x = (k, v)" by (cases x)
  from Cons.prems x have "k \<notin> fst ` set acc" by auto
  then have "AList.update k v acc = acc @ [(k, v)]" by (rule update_nonmember)
  moreover have "distinct (map fst ((acc @ [(k, v)]) @ xs))" using Cons.prems x by simp
  ultimately show ?case using Cons.IH [of "acc @ [(k, v)]"] x by simp
qed

lemma OrderedDict_distinct: "distinct (map fst xs) \<Longrightarrow> OrderedDict xs = xs"
  using foldl_update_distinct [of "[]" xs] by (simp add: OrderedDict_def)

lemma mset_natsorted: "mset (natsorted xs key) = mset xs"
  by (simp add: natsorted_def)

lemma distinct_keys_natsorted:
  "distinct (map fst xs) \<Longrightarrow> distinct (map fst (natsorted xs key))"
proof -
  assume d: "distinct (map fst xs)"
  have "mset (map fst (natsorted xs key)) = mset (map fst xs)"
    by (simp add: mset_natsorted)
  then show ?thesis using d by (metis mset_eq_imp_distinct_iff)
qed

lemma nodesort_natsorted:
  "distinct (map fst nodes) \<Longrightarrow>
   nodesort nodes =
     natsorted nodes (\<lambda>t. [cluster.name (cluster (fst t)), node.name (fst t)])"
  by (simp add: nodesort_def OrderedDict_distinct distinct_keys_natsorted)

lemma mset_nodesort: "distinct (map fst nodes) \<Longrightarrow> mset (nodesort nodes) = mset nodes"
  by (simp add: nodesort_natsorted mset_natsorted)

lemma map_of_mset_eq:
  "mset xs = mset ys \<Longrightarrow> distinct (map fst ys) \<Longrightarrow> map_of xs = map_of ys"
proof -
  assume m: "mset xs = mset ys" and d: "distinct (map fst ys)"
  have "mset (map fst xs) = mset (map fst ys)" using m by simp
  then have dx: "distinct (map fst xs)" using d by (metis mset_eq_imp_distinct_iff)
  have s: "set xs = set ys" using m by (rule mset_eq_setD)
  show ?thesis using dx d s by (rule map_of_inject_set [THEN iffD2])
qed

text \<open>
  C10: when a job of the batch raises, \<^verbatim>\<open>async_dispatch\<close> itself raises, with an exception
  that one of the jobs raised, and returns no mapping; when it does return a mapping,
  every job has returned normally and the mapping holds each key with its job's result.
\<close>

theorem async_dispatch_propagates:
  assumes "\<forall>xs. mset (set_order xs) = mset xs"
    and "distinct (map fst tasks)"
  shows "((\<exists>(k, v) \<in> set tasks. \<exists>e. run_task v = Inl e) \<longrightarrow>
            (\<exists>e. async_dispatch set_order tasks = Inl e
               \<and> (\<exists>(k, v) \<in> set tasks. run_task v = Inl e)))
       \<and> (\<forall>m. async_dispatch set_order tasks = Inr m \<longrightarrow>
            (\<forall>(k, v) \<in> set tasks. \<exists>r. run_task v = Inr r \<and> map_of m k = Some r)
            \<and> fst ` set m = fst ` set tasks \<and> distinct (map fst m))"
  using assms by (rule async_dispatch_outcome)

theorem async_dispatch_propagates_witness:
  "async_dispatch rev
     [(''a'', Task1 (\<lambda>args kwargs. Inr (1::nat))),
      (''b'', Task3 (\<lambda>args kwargs. Inl ValueError) [0::nat] []),
      (''c'', Task2 (\<lambda>args kwargs. Inr 3) [0])] = Inl ValueError"
proof -
  let ?tasks = "[(''a'', Task1 (\<lambda>args kwargs. Inr (1::nat))),
      (''b'', Task3 (\<lambda>args kwargs. Inl ValueError) [0::nat] []),
      (''c'', Task2 (\<lambda>args kwargs. Inr 3) [0])]"
  have h1: "\<forall>xs :: nat future list. mset (rev xs) = mset xs" by simp
  have h2: "distinct (map fst ?tasks)" by simp
  have h3: "\<exists>(k, v) \<in> set ?tasks. \<exists>e. run_task v = Inl e" by simp
  from async_dispatch_propagates [OF h1 h2] h3 obtain e where
    "async_dispatch rev ?tasks = Inl e" "\<exists>(k, v) \<in> set ?tasks. run_task v = Inl e"
    by blast
  then show ?thesis by simp
qed

section \<open>The proxies\<close>

text \<open>
  C2: for distinct nodes whose calls all return a call result, of whatever status, the
  fan-out returns a mapping with exactly one entry per node, each node with the result
  of its own call.
\<close>

theorem fanout_one_entry_per_node:
  assumes perm: "\<forall>xs. mset (set_order xs) = mset xs"
    and nodes: "distinct nodelist"
    and returns: "\<forall>node \<in> set nodelist. service node operation args kwargs = Inr (result node)"
  shows "\<exists>m. NodeListSoapProxy_call set_order service nodelist operation args kwargs = Inr m
           \<and> length m = length nodelist
           \<and> distinct (map fst m)
           \<and> set (map fst m) = set nodelist
           \<and> (\<forall>node \<in> set nodelist. map_of m node = Some (result node))"
proof -
  let ?pairs = "map (\<lambda>node. (node, Task3 (service node operation) args kwargs)) nodelist"
  have keys: "map fst ?pairs = nodelist" by (simp add: comp_def)
  then have dpairs: "distinct (map fst ?pairs)" using nodes by simp
  then have tasks: "OrderedDict ?pairs = ?pairs" by (rule OrderedDict_distinct)
  have ok: "\<forall>(k, v) \<in> set ?pairs. \<exists>r. run_task v = Inr r" using returns by auto
  from async_dispatch_total [OF perm ok] obtain res where
    res: "async_dispatch set_order ?pairs = Inr res" by blast
  from async_dispatch_outcome [OF perm dpairs] res have
    vals: "\<forall>(k, v) \<in> set ?pairs. \<exists>r. run_task v = Inr r \<and> map_of res k = Some r" and
    dom: "fst ` set res = fst ` set ?pairs" and
    dres: "distinct (map fst res)"
    by auto
  let ?m = "nodesort res"
  have call: "NodeListSoapProxy_call set_order service nodelist operation args kwargs = Inr ?m"
    using res tasks by (simp add: NodeListSoapProxy_call_def)
  have ms: "mset ?m = mset res" using dres by (rule mset_nodesort)
  have "mset (map fst ?m) = mset (map fst res)" using ms by simp
  then have dm: "distinct (map fst ?m)" using dres by (metis mset_eq_imp_distinct_iff)
  have sm: "set (map fst ?m) = set nodelist"
  proof -
    have "set ?m = set res" using ms by (rule mset_eq_setD)
    then have "fst ` set ?m = fst ` set res" by simp
    also have "\<dots> = set nodelist" using dom keys by (metis list.set_map)
    finally show ?thesis by simp
  qed
  have "length ?m = card (set (map fst ?m))"
    using dm by (metis distinct_card length_map)
  also have "\<dots> = length nodelist" using sm nodes by (simp add: distinct_card)
  finally have len: "length ?m = length nodelist" .
  have mo: "map_of ?m = map_of res" using ms dres by (rule map_of_mset_eq)
  have val: "map_of ?m node = Some (result node)" if "node \<in> set nodelist" for node
  proof -
    from that have "(node, Task3 (service node operation) args kwargs) \<in> set ?pairs" by auto
    with vals obtain r where
      "run_task (Task3 (service node operation) args kwargs) = Inr r" "map_of res node = Some r"
      by blast
    with returns that show ?thesis by (simp add: mo)
  qed
  show ?thesis using call len dm sm val by blast
qed

theorem fanout_one_entry_per_node_witness:
  "\<exists>m. NodeListSoapProxy_call rev (NodeSoapProxy_call flaky_env)
         [mk_node ''prod'' ''node10'', mk_node ''prod'' ''node2'', mk_node ''prod'' ''node1'']
         ''getTime'' [] [] = Inr m
       \<and> length m = 3
       \<and> map_of m (mk_node ''prod'' ''node10'') = Some (0, PNone)
       \<and> map_of m (mk_node ''prod'' ''node2'') = Some (200, PStr ''<ok/>'')
       \<and> map_of m (mk_node ''prod'' ''node1'') = Some (0, PNone)"
proof -
  let ?nodes = "[mk_node ''prod'' ''node10'', mk_node ''prod'' ''node2'', mk_node ''prod'' ''node1'']"
  let ?result = "\<lambda>node. if node.name node = ''node2'' then (200, PStr ''<ok/>'') else (0, PNone)"
  have h1: "\<forall>xs :: call_result future list. mset (rev xs) = mset xs" by simp
  have h2: "distinct ?nodes" by (simp add: mk_node_def)
  have h3: "\<forall>node \<in> set ?nodes.
      NodeSoapProxy_call flaky_env node ''getTime'' [] [] = Inr (?result node)"
    by (simp add: NodeSoapProxy_call_def flaky_env_def mk_node_def isinstance_def)
  from fanout_one_entry_per_node [where set_order = rev
      and service = "NodeSoapProxy_call flaky_env" and nodelist = "?nodes"
      and operation = "''getTime''" and args = "[]" and kwargs = "[]" and result = "?result",
      OF h1 h2 h3]
  obtain m where
    m: "NodeListSoapProxy_call rev (NodeSoapProxy_call flaky_env) ?nodes ''getTime'' [] [] = Inr m"
       "length m = length ?nodes"
       "\<forall>node \<in> set ?nodes. map_of m node = Some (?result node)"
    by blast
  from m(3) have "map_of m (mk_node ''prod'' ''node10'') = Some (0, PNone)"
    "map_of m (mk_node ''prod'' ''node2'') = Some (200, PStr ''<ok/>'')"
    "map_of m (mk_node ''prod'' ''node1'') = Some (0, PNone)"
    by (simp_all add: mk_node_def)
  with m(1,2) show ?thesis by simp
qed

lemma requests_raises_caught:
  "isinstance (requests_raises failure) ConnectionError
   \<or> isinstance (requests_raises failure) Timeout"
  by (cases failure) (simp_all add: isinstance_def)

lemma halon_other_exception:
  "tornado_env.make_request tenv node operation args kwargs = Inr (Some tcontext) \<Longrightarrow>
   make_tornado_request tenv node tcontext = Inr request \<Longrightarrow>
   fetch tenv request = Inl e \<Longrightarrow>
   \<forall>e_code e_message e_body. e \<noteq> TornadoHTTPError e_code e_message e_body \<Longrightarrow>
   halon_NodeSoapProxy_call tenv node operation args kwargs = Inl NameError"
  by (cases e) (simp_all add: halon_NodeSoapProxy_call_def)

lemma halon_connection_refused:
  "halon_NodeSoapProxy_call refused_env (mk_node ''prod'' ''node1'') ''getTime'' [] [] =
     Inl NameError"
  by (simp add: halon_NodeSoapProxy_call_def refused_env_def mk_node_def)

text \<open>
  C1, as amended: in \<^verbatim>\<open>halonctl/proxies.py\<close> a refused connection, a DNS failure, a TLS
  failure or a timeout of \<^verbatim>\<open>requests.post\<close> gives \<^verbatim>\<open>(0, None)\<close>, and no
  \<^verbatim>\<open>ConnectionError\<close> or \<^verbatim>\<open>Timeout\<close> leaves the call once the request is built; in
  \<^verbatim>\<open>halon/proxies.py\<close> a request context that is false gives
  \<^verbatim>\<open>(0, "Couldn't connect")\<close>, status 0 with a payload that is not \<^verbatim>\<open>None\<close>.
\<close>

theorem transport_failure_normalized:
  "(soap_env.make_request env node operation args kwargs = Inr ctx \<longrightarrow>
      post env node ctx = Inl (Requests (requests_raises failure)) \<longrightarrow>
      NodeSoapProxy_call env node operation args kwargs = Inr (0, PNone))
   \<and> (soap_env.make_request env node operation args kwargs = Inr ctx \<longrightarrow>
      NodeSoapProxy_call env node operation args kwargs = Inl (Requests e) \<longrightarrow>
      \<not> isinstance e ConnectionError \<and> \<not> isinstance e Timeout)
   \<and> (tornado_env.make_request tenv node operation args kwargs = Inr None \<longrightarrow>
      halon_NodeSoapProxy_call tenv node operation args kwargs =
        Inr (0, PStr ''Couldn't connect''))"
proof -
  have a: "NodeSoapProxy_call env node operation args kwargs = Inr (0, PNone)"
    if "soap_env.make_request env node operation args kwargs = Inr ctx"
       "post env node ctx = Inl (Requests (requests_raises failure))"
    using that requests_raises_caught [of failure] by (auto simp: NodeSoapProxy_call_def)
  have b: "\<not> isinstance e ConnectionError \<and> \<not> isinstance e Timeout"
    if "soap_env.make_request env node operation args kwargs = Inr ctx"
       "NodeSoapProxy_call env node operation args kwargs = Inl (Requests e)"
    using that
    by (auto simp: NodeSoapProxy_call_def split: sum.splits exn.splits if_splits prod.splits)
  have d: "halon_NodeSoapProxy_call tenv node operation args kwargs =
        Inr (0, PStr ''Couldn't connect'')"
    if "tornado_env.make_request tenv node operation args kwargs = Inr None"
    using that by (simp add: halon_NodeSoapProxy_call_def)
  show ?thesis using a b d by blast
qed

theorem transport_failure_normalized_witness:
  "NodeSoapProxy_call flaky_env (mk_node ''prod'' ''node10'') ''getTime'' [] [] = Inr (0, PNone)
   \<and> halon_NodeSoapProxy_call refused_env (mk_node ''prod'' ''node10'') ''getTime'' [] [] =
       Inr (0, PStr ''Couldn't connect'')"
proof -
  let ?n = "mk_node ''prod'' ''node10''"
  have h1: "soap_env.make_request flaky_env ?n ''getTime'' [] [] = Inr ()"
    by (simp add: flaky_env_def)
  have h2: "post flaky_env ?n () = Inl (Requests (requests_raises TLSFailure))"
    by (simp add: flaky_env_def mk_node_def)
  have h3: "tornado_env.make_request refused_env ?n ''getTime'' [] [] = Inr None"
    by (simp add: refused_env_def mk_node_def)
  from transport_failure_normalized [where env = flaky_env and node = "?n"
      and operation = "''getTime''" and args = "[]" and kwargs = "[]" and ctx = "()"
      and failure = TLSFailure and tenv = refused_env] h1 h2 h3
  show ?thesis by blast
qed

theorem no_context_payload_counterexample:
  "halon_NodeSoapProxy_call refused_env (mk_node ''prod'' ''node10'') ''getTime'' [] [] =
     Inr (0, PStr ''Couldn't connect'')
   \<and> halon_NodeSoapProxy_call refused_env (mk_node ''prod'' ''node10'') ''getTime'' [] [] \<noteq>
     Inr (0, PNone)"
  by (simp add: halon_NodeSoapProxy_call_def refused_env_def mk_node_def)

section \<open>Ordering the results\<close>

lemma natsort_split_digits:
  "ds \<noteq> [] \<Longrightarrow> \<forall>c \<in> set ds. is_digit c \<Longrightarrow> natsort_split ds = [N (digits_value ds)]"
proof -
  assume ne: "ds \<noteq> []" and dig: "\<forall>c \<in> set ds. is_digit c"
  then obtain d ds' where ds: "ds = d # ds'" by (cases ds) auto
  have t: "takeWhile is_digit ds' = ds'" using dig ds by (simp add: takeWhile_eq_all_conv)
  have dr: "dropWhile is_digit ds' = []" using dig ds by simp
  show ?thesis using dig by (simp add: ds t dr)
qed

lemma natsort_split_prefix_digits:
  assumes "p \<noteq> []" and "\<forall>c \<in> set p. \<not> is_digit c"
    and "ds \<noteq> []" and "\<forall>c \<in> set ds. is_digit c"
  shows "natsort_split (p @ ds) = [S p, N (digits_value ds)]"
proof -
  from assms(1) obtain c p' where p: "p = c # p'" by (cases p) auto
  from assms(3) obtain d ds' where ds: "ds = d # ds'" by (cases ds) auto
  have nd: "\<not> is_digit c" "\<forall>x \<in> set p'. \<not> is_digit x" using assms(2) p by auto
  have d: "is_digit d" using assms(4) ds by simp
  have t: "takeWhile (\<lambda>x. \<not> is_digit x) (p' @ ds) = p'"
    using nd(2) d ds by (simp add: takeWhile_append2)
  have dr: "dropWhile (\<lambda>x. \<not> is_digit x) (p' @ ds) = ds"
    using nd(2) d ds by (simp add: dropWhile_append2)
  have "natsort_split (p @ ds) = S p # natsort_split ds"
    using nd(1) by (simp add: p t dr)
  then show ?thesis using natsort_split_digits [OF assms(3,4)] by simp
qed

lemma natsort_key_prefix_digits:
  assumes "p \<noteq> []" and "\<forall>c \<in> set p. \<not> is_digit c"
    and "ds \<noteq> []" and "\<forall>c \<in> set ds. is_digit c"
  shows "natsort_key (p @ ds) = [S p, N (digits_value ds)]"
  using natsort_split_prefix_digits [OF assms] by (simp add: natsort_key_def)

lemma numeric_run_order:
  assumes "p \<noteq> []" and "\<forall>c \<in> set p. \<not> is_digit c"
    and "da \<noteq> []" and "\<forall>c \<in> set da. is_digit c"
    and "db \<noteq> []" and "\<forall>c \<in> set db. is_digit c"
  shows "([k, natsort_key (p @ da)] \<le> [k, natsort_key (p @ db)])
         = (digits_value da \<le> digits_value db)"
proof -
  have a: "natsort_key (p @ da) = [S p, N (digits_value da)]"
    using assms(1,2,3,4) by (rule natsort_key_prefix_digits)
  have b: "natsort_key (p @ db) = [S p, N (digits_value db)]"
    using assms(1,2,5,6) by (rule natsort_key_prefix_digits)
  show ?thesis unfolding a b by (auto simp: less_chunk_def)
qed

lemma nodesort_sorted:
  "distinct (map fst nodes) \<Longrightarrow>
   sorted (map (\<lambda>t. map natsort_key [cluster.name (cluster (fst t)), node.name (fst t)])
             (nodesort nodes))"
  by (simp add: nodesort_natsorted natsorted_def sorted_sort_key)

lemma nodesort_order_independent:
  assumes "distinct (map fst nodes)" and "mset nodes' = mset nodes"
    and "inj_on (\<lambda>t. map natsort_key [cluster.name (cluster (fst t)), node.name (fst t)])
           (set nodes)"
  shows "nodesort nodes' = nodesort nodes"
proof -
  have "mset (map fst nodes') = mset (map fst nodes)" using assms(2) by simp
  then have d: "distinct (map fst nodes')" using assms(1) by (metis mset_eq_imp_distinct_iff)
  have s: "set nodes' = set nodes" using assms(2) by (rule mset_eq_setD)
  show ?thesis
    unfolding nodesort_natsorted [OF d] nodesort_natsorted [OF assms(1)] natsorted_def
    using assms(2,3) s by (intro sort_key_eq_sort_key) auto
qed

text \<open>
  C4: \<^verbatim>\<open>nodesort\<close> is a function of the mapping it is given: its result holds the same
  entries, sorted by the natural keys of (cluster name, node name); it does not depend on
  the order in which the mapping is iterated when no two nodes share a key; two nodes of
  one cluster whose names are the same prefix followed by digits come out in the order
  of the numbers; and node10, node2, node20, node1 come out as node1, node2, node10,
  node20.
\<close>

theorem nodesort_natural_order:
  assumes "distinct (map fst nodes)"
  shows "sorted (map (\<lambda>t. map natsort_key [cluster.name (cluster (fst t)), node.name (fst t)])
                  (nodesort nodes))
     \<and> mset (nodesort nodes) = mset nodes
     \<and> (\<forall>nodes'. mset nodes' = mset nodes \<longrightarrow>
          inj_on (\<lambda>t. map natsort_key [cluster.name (cluster (fst t)), node.name (fst t)])
            (set nodes) \<longrightarrow>
          nodesort nodes' = nodesort nodes)
     \<and> (\<forall>i j p da db. i < length nodes \<longrightarrow> j < length nodes \<longrightarrow>
          cluster.name (cluster (fst (nodesort nodes ! i)))
            = cluster.name (cluster (fst (nodesort nodes ! j))) \<longrightarrow>
          node.name (fst (nodesort nodes ! i)) = p @ da \<longrightarrow>
          node.name (fst (nodesort nodes ! j)) = p @ db \<longrightarrow>
          p \<noteq> [] \<longrightarrow> (\<forall>c \<in> set p. \<not> is_digit c) \<longrightarrow>
          da \<noteq> [] \<longrightarrow> (\<forall>c \<in> set da. is_digit c) \<longrightarrow>
          db \<noteq> [] \<longrightarrow> (\<forall>c \<in> set db. is_digit c) \<longrightarrow>
          digits_value da < digits_value db \<longrightarrow> i < j)
     \<and> map (node.name \<circ> fst)
          (nodesort [(mk_node c ''node10'', r1), (mk_node c ''node2'', r2),
                     (mk_node c ''node20'', r3), (mk_node c ''node1'', r4)])
        = [''node1'', ''node2'', ''node10'', ''node20'']"
proof -
  let ?K = "\<lambda>t :: node \<times> 'a. map natsort_key [cluster.name (cluster (fst t)), node.name (fst t)]"
  let ?res = "nodesort nodes"
  have srt: "sorted (map ?K ?res)" using assms by (rule nodesort_sorted)
  have ms: "mset ?res = mset nodes" using assms by (rule mset_nodesort)
  have len: "length ?res = length nodes" using ms by (metis size_mset)
  have indep: "nodesort nodes' = nodesort nodes"
    if "mset nodes' = mset nodes" "inj_on ?K (set nodes)" for nodes'
    using assms that by (rule nodesort_order_independent)
  have num: "i < j"
    if ij: "i < length nodes" "j < length nodes"
      and cl: "cluster.name (cluster (fst (?res ! i))) = cluster.name (cluster (fst (?res ! j)))"
      and na: "node.name (fst (?res ! i)) = p @ da" and nb: "node.name (fst (?res ! j)) = p @ db"
      and p: "p \<noteq> []" "\<forall>c \<in> set p. \<not> is_digit c"
      and da: "da \<noteq> []" "\<forall>c \<in> set da. is_digit c"
      and db: "db \<noteq> []" "\<forall>c \<in> set db. is_digit c"
      and lt: "digits_value da < digits_value db"
    for i j p da db
  proof (rule ccontr)
    assume "\<not> i < j"
    then have ji: "j \<le> i" by simp
    have "map ?K ?res ! j \<le> map ?K ?res ! i"
      using srt ji ij len by (simp add: sorted_iff_nth_mono)
    then have "?K (?res ! j) \<le> ?K (?res ! i)" using ij len by simp
    then have "[natsort_key (cluster.name (cluster (fst (?res ! i)))), natsort_key (p @ db)]
               \<le> [natsort_key (cluster.name (cluster (fst (?res ! i)))), natsort_key (p @ da)]"
      using cl na nb by simp
    then have "digits_value db \<le> digits_value da"
      using numeric_run_order [OF p db da] by simp
    with lt show False by simp
  qed
  have k1: "natsort_key ''node1'' = [S ''node'', N 1]" by code_simp
  have k2: "natsort_key ''node2'' = [S ''node'', N 2]" by code_simp
  have k10: "natsort_key ''node10'' = [S ''node'', N 10]" by code_simp
  have k20: "natsort_key ''node20'' = [S ''node'', N 20]" by code_simp
  let ?xs = "[(mk_node c ''node10'', r1), (mk_node c ''node2'', r2),
              (mk_node c ''node20'', r3), (mk_node c ''node1'', r4)]"
  have dx: "distinct (map fst ?xs)" by (simp add: mk_node_def)
  have ex: "map (node.name \<circ> fst) (nodesort ?xs) = [''node1'', ''node2'', ''node10'', ''node20'']"
    unfolding nodesort_natsorted [OF dx] natsorted_def
    by (simp add: mk_node_def k1 k2 k10 k20 less_chunk_def)
  show ?thesis using srt ms indep num ex by blast
qed

theorem nodesort_natural_order_witness:
  "sorted (map (\<lambda>t. map natsort_key [cluster.name (cluster (fst t)), node.name (fst t)])
      (nodesort [(mk_node ''b'' ''node2'', (200::int, PNone)), (mk_node ''a'' ''node10'', (0, PNone)),
                 (mk_node ''a'' ''node9'', (200, PNone))]))
   \<and> mset (nodesort [(mk_node ''b'' ''node2'', (200::int, PNone)), (mk_node ''a'' ''node10'', (0, PNone)),
                 (mk_node ''a'' ''node9'', (200, PNone))])
     = mset [(mk_node ''b'' ''node2'', (200::int, PNone)), (mk_node ''a'' ''node10'', (0, PNone)),
                 (mk_node ''a'' ''node9'', (200::int, PNone))]"
proof -
  let ?xs = "[(mk_node ''b'' ''node2'', (200::int, PNone)), (mk_node ''a'' ''node10'', (0, PNone)),
                 (mk_node ''a'' ''node9'', (200::int, PNone))]"
  have h: "distinct (map fst ?xs)" by (simp add: mk_node_def)
  note t = nodesort_natural_order [OF h]
  from t have a: "sorted (map (\<lambda>t. map natsort_key
      [cluster.name (cluster (fst t)), node.name (fst t)]) (nodesort ?xs))"
    by (rule conjunct1)
  from t have b: "mset (nodesort ?xs) = mset ?xs"
    by (rule conjunct2 [THEN conjunct1])
  from a b show ?thesis by (rule conjI)
qed

section \<open>Base64 round trips\<close>























lemma of_char_of_small: "n < 256 \<Longrightarrow> (of_char (char_of n) :: nat) = n"
  by simp













end
